theory Spec2Isabelle
  imports Main "HOL-Library.AList" "HOL-Library.Multiset"
begin

section \<open>Python values used by \<^verbatim>\<open>src/loader.py\<close>\<close>

text \<open>
  The three functions of \<^verbatim>\<open>loader.py\<close> (\<^verbatim>\<open>obtainHMMs\<close>,
  \<^verbatim>\<open>getHMMSearchResults\<close>, \<^verbatim>\<open>assignQueryToSubset\<close>) are embedded as
  HOL functions. Every exception the Python can raise is a value \<open>Inl e\<close> of a sum
  type; a normal return is \<open>Inr v\<close>. \<open>FileError\<close> stands for a file that cannot be
  opened and \<open>EvalError\<close> for file content that \<^verbatim>\<open>eval\<close> rejects.
\<close>

datatype error =
    IndexError
  | ValueError
  | AssertionError
  | FileError
  | EvalError

subsection \<open>Insertion-ordered dictionaries\<close>

text \<open>
  A Python \<^verbatim>\<open>dict\<close> keeps its keys in insertion order and holds every key once. It is
  an association list with distinct keys: \<^verbatim>\<open>d[k] = v\<close> overwrites the value in place when
  \<open>k\<close> is present and appends the pair otherwise; \<^verbatim>\<open>d.items()\<close> is the list itself.
\<close>

type_synonym ('k, 'v) dict = "('k \<times> 'v) list"

primrec dict_set :: "'k \<Rightarrow> 'v \<Rightarrow> ('k, 'v) dict \<Rightarrow> ('k, 'v) dict" where
  "dict_set k v [] = [(k, v)]"
| "dict_set k v (p # ps) = (if fst p = k then (k, v) # ps else p # dict_set k v ps)"

definition dict_get :: "('k, 'v) dict \<Rightarrow> 'k \<Rightarrow> 'v option" where
  "dict_get d k = map_of d k"

definition is_dict :: "('k, 'v) dict \<Rightarrow> bool" where
  "is_dict d = distinct (map fst d)"

text \<open>
  \<^verbatim>\<open>d[k].append(v)\<close> on a \<^verbatim>\<open>defaultdict(list)\<close>: a missing key is first inserted with
  the empty list, then \<open>v\<close> is appended to the list stored under \<open>k\<close>.
\<close>

definition dd_get :: "('k, 'v list) dict \<Rightarrow> 'k \<Rightarrow> 'v list" where
  "dd_get d k = (case map_of d k of None \<Rightarrow> [] | Some xs \<Rightarrow> xs)"

definition dd_append :: "'k \<Rightarrow> 'v \<Rightarrow> ('k, 'v list) dict \<Rightarrow> ('k, 'v list) dict" where
  "dd_append k v d = dict_set k (dd_get d k @ [v]) d"

subsection \<open>\<^verbatim>\<open>sorted(xs, key=f, reverse=True)\<close>\<close>

text \<open>
  Python's sort is stable; with \<^verbatim>\<open>reverse=True\<close> the list is reversed, sorted stably in
  ascending key order and reversed again, so that elements with equal keys keep their
  original relative order. Keys are values of a linear order (integers, or floats other
  than NaN).
\<close>

definition sorted_desc :: "('a \<Rightarrow> 'b::linorder) \<Rightarrow> 'a list \<Rightarrow> 'a list" where
  "sorted_desc f xs = rev (sort_key f (rev xs))"

section \<open>Assignment Resolver: \<^verbatim>\<open>assignQueryToSubset\<close>\<close>

text \<open>
  A scored match is the tuple \<^verbatim>\<open>(alignment_ind, hmm_ind, score[1])\<close>.
\<close>

type_synonym 's scored_match = "int \<times> int \<times> 's"

type_synonym 's ranked_scores = "(string, 's scored_match list) dict"

type_synonym query_assignment = "(int, string list) dict"

text \<open>
  The loop \<^verbatim>\<open>for taxon, score in scores.items()\<close>: \<^verbatim>\<open>score[0][0]\<close> raises
  \<^verbatim>\<open>IndexError\<close> on an empty list; otherwise the taxon is appended to the bucket of the
  first entry's alignment index.
\<close>

fun assign_loop :: "'s ranked_scores \<Rightarrow> query_assignment \<Rightarrow> error + query_assignment" where
  "assign_loop [] query_assignment = Inr query_assignment"
| "assign_loop ((taxon, score) # rest) query_assignment =
     (case score of
        [] \<Rightarrow> Inl IndexError
      | best # _ \<Rightarrow> assign_loop rest (dd_append (fst best) taxon query_assignment))"

text \<open>
  The parameters \<^verbatim>\<open>hmm_indexes\<close> and \<^verbatim>\<open>index_to_hmms\<close> are not read by the body.
\<close>

definition assignQueryToSubset ::
  "'s ranked_scores \<Rightarrow> 'h \<Rightarrow> 'i \<Rightarrow> error + query_assignment" where
  "assignQueryToSubset scores hmm_indexes index_to_hmms = assign_loop scores []"

section \<open>Strings, paths and parsing\<close>

text \<open>
  Strings are lists of bytes. \<^verbatim>\<open>s.split(c)\<close> with a one-character separator always
  returns at least one piece; \<^verbatim>\<open>s.split()\<close> cuts at runs of whitespace and returns no
  empty piece.
\<close>

fun split_on :: "char \<Rightarrow> string \<Rightarrow> string list" where
  "split_on c [] = [[]]"
| "split_on c (x # xs) =
     (if x = c then [] # split_on c xs
      else (case split_on c xs of
              [] \<Rightarrow> [[x]]
            | w # ws \<Rightarrow> (x # w) # ws))"

definition is_space :: "char \<Rightarrow> bool" where
  "is_space c = (let n = (of_char c :: nat) in (9 \<le> n \<and> n \<le> 13) \<or> (28 \<le> n \<and> n \<le> 32))"

fun split_ws :: "string \<Rightarrow> string \<Rightarrow> string list" where
  "split_ws cur [] = (if cur = [] then [] else [cur])"
| "split_ws cur (x # xs) =
     (if is_space x then (if cur = [] then split_ws [] xs else cur # split_ws [] xs)
      else split_ws (cur @ [x]) xs)"

definition py_split :: "string \<Rightarrow> string list" where
  "py_split s = split_ws [] s"

text \<open>\<^verbatim>\<open>sep.join(xs)\<close>.\<close>

fun join_str :: "string \<Rightarrow> string list \<Rightarrow> string" where
  "join_str sep [] = []"
| "join_str sep [x] = x"
| "join_str sep (x # y # ys) = x @ sep @ join_str sep (y # ys)"

text \<open>
  \<^verbatim>\<open>int(s)\<close> on an ASCII string: the whitespace that the conversion skips at both
  ends is the C set (tab, line feed, vertical tab, form feed, carriage return and
  space); the separators \<open>0x1C\<close> to \<open>0x1F\<close>, at which \<^verbatim>\<open>split()\<close> cuts, are not
  skipped. One sign is allowed, then decimal digits, where single underscores may stand
  between digits. Anything else raises \<^verbatim>\<open>ValueError\<close>.
\<close>

definition is_digit :: "char \<Rightarrow> bool" where
  "is_digit c = (let n = (of_char c :: nat) in 48 \<le> n \<and> n \<le> 57)"

fun digits_ok :: "string \<Rightarrow> bool" where
  "digits_ok [] = False"
| "digits_ok [c] = is_digit c"
| "digits_ok (c # d # r) =
     (is_digit c \<and> (if d = CHR ''_'' then digits_ok r else digits_ok (d # r)))"

definition digits_value :: "string \<Rightarrow> int" where
  "digits_value s = foldl (\<lambda>acc c. 10 * acc + (of_char c - 48)) 0 s"

definition is_int_space :: "char \<Rightarrow> bool" where
  "is_int_space c = (let n = (of_char c :: nat) in (9 \<le> n \<and> n \<le> 13) \<or> n = 32)"

definition strip :: "string \<Rightarrow> string" where
  "strip s = rev (dropWhile is_int_space (rev (dropWhile is_int_space s)))"

definition py_int :: "string \<Rightarrow> error + int" where
  "py_int s =
     (let t = strip s;
          neg = (case t of [] \<Rightarrow> False | c # _ \<Rightarrow> c = CHR ''-'');
          body = (case t of [] \<Rightarrow> []
                  | c # r \<Rightarrow> if c = CHR ''-'' \<or> c = CHR ''+'' then r else t)
      in if digits_ok body
         then Inr ((if neg then - 1 else 1) * digits_value (filter (\<lambda>c. c \<noteq> CHR ''_'') body))
         else Inl ValueError)"

text \<open>
  \<^verbatim>\<open>os.path.dirname\<close> (POSIX): everything up to the last slash, with trailing slashes
  removed unless the head consists of slashes only.
\<close>

definition after_last_slash :: "string \<Rightarrow> string" where
  "after_last_slash p = rev (takeWhile (\<lambda>c. c \<noteq> CHR ''/'') (rev p))"

definition dirname :: "string \<Rightarrow> string" where
  "dirname p =
     (let head = take (length p - length (after_last_slash p)) p
      in if head \<noteq> [] \<and> \<not> list_all (\<lambda>c. c = CHR ''/'') head
         then rev (dropWhile (\<lambda>c. c = CHR ''/'') (rev head))
         else head)"

text \<open>\<^verbatim>\<open>os.path.join(a, b)\<close> (POSIX) for a relative second component \<open>b\<close>.\<close>

definition path_join :: "string \<Rightarrow> string \<Rightarrow> string" where
  "path_join a b = (if a = [] \<or> last a = CHR ''/'' then a @ b else a @ ''/'' @ b)"

text \<open>
  \<^verbatim>\<open>os.popen(cmd).read().split('\n')[:-1]\<close>: the lines of a command's output.
\<close>

definition output_lines :: "string \<Rightarrow> string list" where
  "output_lines out = butlast (split_on (CHR 0x0A) out)"

section \<open>The artifact tree\<close>

text \<open>
  The functions reach the file system through shell commands and file reads only. The
  environment gives the result of each of them as a function of the path the source
  passes in:
  \<^item> \<open>find_models indir\<close>: the output of \<^verbatim>\<open>find indir -name hmmbuild.model.* -type f\<close>;
  \<^item> \<open>head15 path\<close>: the output of \<^verbatim>\<open>head -n 15 path\<close>;
  \<^item> \<open>path_exists path\<close>: \<^verbatim>\<open>os.path.exists(path)\<close>;
  \<^item> \<open>wc_l path\<close>: the output of \<^verbatim>\<open>wc -l path\<close>;
  \<^item> \<open>find_results hmmdir\<close>: the output of
    \<^verbatim>\<open>find hmmdir -name hmmsearch.results.* -type f\<close>;
  \<^item> \<open>eval_file path\<close>: \<^verbatim>\<open>eval(open(path).read())\<close>, a dictionary from query identifiers
    to score tuples, or the exception raised by opening or evaluating the file.
  The score type \<open>'s\<close> is any linear order.
\<close>

record 's env =
  find_models :: "string \<Rightarrow> string"
  head15 :: "string \<Rightarrow> string"
  path_exists :: "string \<Rightarrow> bool"
  wc_l :: "string \<Rightarrow> string"
  find_results :: "string \<Rightarrow> string"
  eval_file :: "string \<Rightarrow> error + (string, 's list) dict"

section \<open>Model Catalog Builder: \<^verbatim>\<open>obtainHMMs\<close>\<close>

text \<open>
  The dictionary comprehension \<^verbatim>\<open>{x[0]: ','.join(x[1:]) for x in split_lines}\<close>:
  \<^verbatim>\<open>x[0]\<close> raises \<^verbatim>\<open>IndexError\<close> on a line without tokens.
\<close>

fun header_dict :: "string list list \<Rightarrow> (string, string) dict \<Rightarrow> error + (string, string) dict" where
  "header_dict [] d = Inr d"
| "header_dict (x # xs) d =
     (case x of
        [] \<Rightarrow> Inl IndexError
      | k # vs \<Rightarrow> header_dict xs (dict_set k (join_str '','' vs) d))"

text \<open>Lines 21 to 25 of the source: the training-sequence count of one descriptor.\<close>

definition descriptor_nseq :: "'s env \<Rightarrow> string \<Rightarrow> error + int" where
  "descriptor_nseq e path =
     (let lines = output_lines (head15 e path);
          split_lines = map py_split lines
      in case header_dict split_lines [] of
           Inl err \<Rightarrow> Inl err
         | Inr d \<Rightarrow>
             (case dict_get d ''NSEQ'' of
                None \<Rightarrow> Inl AssertionError
              | Some v \<Rightarrow> py_int v))"

text \<open>
  \<^verbatim>\<open>alignment_ind, hmm_ind = (int(x) for x in index.split('_')[1:])\<close>: every failure of
  the conversion or of the unpacking is a \<^verbatim>\<open>ValueError\<close>.
\<close>

definition parse_index :: "string \<Rightarrow> error + (int \<times> int)" where
  "parse_index index =
     (case tl (split_on (CHR ''_'') index) of
        [x1, x2] \<Rightarrow>
          (case py_int x1 of
             Inl err \<Rightarrow> Inl err
           | Inr alignment_ind \<Rightarrow>
               (case py_int x2 of
                  Inl err \<Rightarrow> Inl err
                | Inr hmm_ind \<Rightarrow> Inr (alignment_ind, hmm_ind)))
      | _ \<Rightarrow> Inl ValueError)"

definition subalignment_path_of :: "string \<Rightarrow> string" where
  "subalignment_path_of dir =
     path_join (join_str ''/'' (butlast (split_on (CHR ''/'') dir))) ''subset.aln.fasta''"

definition index_of :: "string \<Rightarrow> string" where
  "index_of dir = last (split_on (CHR ''/'') dir)"

type_synonym hmm_tuple = "int \<times> int \<times> int \<times> int"

type_synonym hmm_value = "string \<times> int \<times> int \<times> int"

text \<open>
  Lines 31 to 45 of the source, for a descriptor that passed the size filter: the key
  \<^verbatim>\<open>index\<close>, the tuple appended to \<^verbatim>\<open>hmm_indexes\<close> and the value stored in
  \<^verbatim>\<open>index_to_hmms\<close>.
\<close>

definition catalog_entry :: "'s env \<Rightarrow> string \<Rightarrow> int \<Rightarrow> error + (string \<times> hmm_tuple \<times> hmm_value)" where
  "catalog_entry e path num_seq =
     (let dir = dirname path;
          subalignment_path = subalignment_path_of dir
      in if \<not> path_exists e subalignment_path then Inl AssertionError
         else (case py_int (hd (split_on (CHR '' '') (wc_l e subalignment_path))) of
                 Inl err \<Rightarrow> Inl err
               | Inr wc \<Rightarrow>
                   (let subalignment_size = wc div 2;
                        index = index_of dir
                    in case parse_index index of
                         Inl err \<Rightarrow> Inl err
                       | Inr (alignment_ind, hmm_ind) \<Rightarrow>
                           Inr (index,
                                (alignment_ind, subalignment_size, hmm_ind, num_seq),
                                (dir, alignment_ind, hmm_ind, num_seq)))))"

definition in_range :: "int \<Rightarrow> int \<Rightarrow> nat \<Rightarrow> int \<Rightarrow> bool" where
  "in_range lower upper n_paths num_seq =
     ((num_seq \<le> upper \<and> num_seq \<ge> lower) \<or> n_paths = 1)"

text \<open>
  The loop \<^verbatim>\<open>for path in hmmbuild_paths\<close>; \<open>n_paths\<close> is \<^verbatim>\<open>len(hmmbuild_paths)\<close>.
\<close>

fun obtain_loop ::
  "'s env \<Rightarrow> int \<Rightarrow> int \<Rightarrow> nat \<Rightarrow> string list \<Rightarrow>
   hmm_tuple list \<times> (string, hmm_value) dict \<Rightarrow>
   error + (hmm_tuple list \<times> (string, hmm_value) dict)" where
  "obtain_loop e lower upper n_paths [] acc = Inr acc"
| "obtain_loop e lower upper n_paths (path # rest) (hmm_indexes, index_to_hmms) =
     (case descriptor_nseq e path of
        Inl err \<Rightarrow> Inl err
      | Inr num_seq \<Rightarrow>
          if in_range lower upper n_paths num_seq
          then (case catalog_entry e path num_seq of
                  Inl err \<Rightarrow> Inl err
                | Inr (index, tuple, val) \<Rightarrow>
                    obtain_loop e lower upper n_paths rest
                      (hmm_indexes @ [tuple], dict_set index val index_to_hmms))
          else obtain_loop e lower upper n_paths rest (hmm_indexes, index_to_hmms))"

definition discovered_paths :: "'s env \<Rightarrow> string \<Rightarrow> string list \<Rightarrow> string list" where
  "discovered_paths e indir hmmbuild_paths =
     (if length hmmbuild_paths = 0 then output_lines (find_models e indir) else hmmbuild_paths)"

definition obtainHMMs ::
  "'s env \<Rightarrow> string \<Rightarrow> int \<Rightarrow> int \<Rightarrow> string list \<Rightarrow>
   error + (hmm_tuple list \<times> (string, hmm_value) dict)" where
  "obtainHMMs e indir lower upper hmmbuild_paths0 =
     (let hmmbuild_paths = discovered_paths e indir hmmbuild_paths0
      in case obtain_loop e lower upper (length hmmbuild_paths) hmmbuild_paths ([], []) of
           Inl err \<Rightarrow> Inl err
         | Inr (hmm_indexes, index_to_hmms) \<Rightarrow>
             Inr (sorted_desc (\<lambda>x. fst (snd x)) hmm_indexes, index_to_hmms))"

section \<open>Score Collector and Ranker: \<^verbatim>\<open>getHMMSearchResults\<close>\<close>

text \<open>
  The innermost loop \<^verbatim>\<open>for taxon, score in this_scores.items()\<close>: \<^verbatim>\<open>score[1]\<close> raises
  \<^verbatim>\<open>IndexError\<close> on a tuple with fewer than two elements.
\<close>

fun items_loop ::
  "(string, 's list) dict \<Rightarrow> int \<Rightarrow> int \<Rightarrow> 's ranked_scores \<Rightarrow> error + 's ranked_scores" where
  "items_loop [] alignment_ind hmm_ind scores = Inr scores"
| "items_loop ((taxon, score) # rest) alignment_ind hmm_ind scores =
     (if length score < 2 then Inl IndexError
      else items_loop rest alignment_ind hmm_ind
             (dd_append taxon (alignment_ind, hmm_ind, score ! 1) scores))"

text \<open>The loop \<^verbatim>\<open>for path in hmmsearch_paths\<close>.\<close>

fun paths_loop ::
  "'s env \<Rightarrow> string list \<Rightarrow> int \<Rightarrow> int \<Rightarrow> 's ranked_scores \<Rightarrow> error + 's ranked_scores" where
  "paths_loop e [] alignment_ind hmm_ind scores = Inr scores"
| "paths_loop e (path # rest) alignment_ind hmm_ind scores =
     (case eval_file e path of
        Inl err \<Rightarrow> Inl err
      | Inr this_scores \<Rightarrow>
          (case items_loop this_scores alignment_ind hmm_ind scores of
             Inl err \<Rightarrow> Inl err
           | Inr scores' \<Rightarrow> paths_loop e rest alignment_ind hmm_ind scores'))"

text \<open>The loop \<^verbatim>\<open>for index, val in index_to_hmms.items()\<close>.\<close>

fun models_loop ::
  "'s env \<Rightarrow> (string, hmm_value) dict \<Rightarrow> 's ranked_scores \<Rightarrow> error + 's ranked_scores" where
  "models_loop e [] scores = Inr scores"
| "models_loop e ((index, hmmdir, alignment_ind, hmm_ind, num_seq) # rest) scores =
     (case paths_loop e (output_lines (find_results e hmmdir)) alignment_ind hmm_ind scores of
        Inl err \<Rightarrow> Inl err
      | Inr scores' \<Rightarrow> models_loop e rest scores')"

text \<open>
  The loop \<^verbatim>\<open>for taxon in scores.keys(): scores[taxon] = sorted(scores[taxon], ...)\<close>.
\<close>

fun rank_loop :: "string list \<Rightarrow> ('s::linorder) ranked_scores \<Rightarrow> 's ranked_scores" where
  "rank_loop [] scores = scores"
| "rank_loop (taxon # rest) scores =
     rank_loop rest
       (dict_set taxon (sorted_desc (\<lambda>x. snd (snd x)) (dd_get scores taxon)) scores)"

definition getHMMSearchResults ::
  "('s::linorder) env \<Rightarrow> (string, hmm_value) dict \<Rightarrow> error + 's ranked_scores" where
  "getHMMSearchResults e index_to_hmms =
     (case models_loop e index_to_hmms [] of
        Inl err \<Rightarrow> Inl err
      | Inr scores \<Rightarrow> Inr (rank_loop (map fst scores) scores))"

section \<open>Logging and timing\<close>









section \<open>Derived notions used in the statements\<close>

text \<open>
  The size filter of the catalog builder in the words of the specification: a
  descriptor passes when its training-sequence count lies in \<open>[lower, upper]\<close> or when
  it is the only descriptor processed.
\<close>

definition passes_size_filter :: "'s env \<Rightarrow> int \<Rightarrow> int \<Rightarrow> string list \<Rightarrow> string \<Rightarrow> bool" where
  "passes_size_filter e lower upper paths path =
     (case descriptor_nseq e path of
        Inl _ \<Rightarrow> False
      | Inr num_seq \<Rightarrow> (lower \<le> num_seq \<and> num_seq \<le> upper) \<or> length paths = 1)"

text \<open>The catalog entry of a descriptor, when both of its parsing steps succeed.\<close>

definition entry_of :: "'s env \<Rightarrow> string \<Rightarrow> (string \<times> hmm_tuple \<times> hmm_value) option" where
  "entry_of e path =
     (case descriptor_nseq e path of
        Inl _ \<Rightarrow> None
      | Inr num_seq \<Rightarrow>
          (case catalog_entry e path num_seq of
             Inl _ \<Rightarrow> None
           | Inr entry \<Rightarrow> Some entry))"

text \<open>
  A descriptor lacks the field when no line of its header starts with the token
  \<^verbatim>\<open>NSEQ\<close>.
\<close>

definition header_keys :: "'s env \<Rightarrow> string \<Rightarrow> string list" where
  "header_keys e path = concat (map (take 1) (map py_split (output_lines (head15 e path))))"

definition lacks_nseq :: "'s env \<Rightarrow> string \<Rightarrow> bool" where
  "lacks_nseq e path = (''NSEQ'' \<notin> set (header_keys e path))"

text \<open>
  The directory names the source accepts: exactly three underscore-delimited tokens (a
  prefix without underscore, then the two indices), of which the last two are integers.
\<close>

definition index_tokens :: "string \<Rightarrow> string list" where
  "index_tokens index = split_on (CHR ''_'') index"

definition matches_pattern :: "string \<Rightarrow> bool" where
  "matches_pattern index =
     (let tokens = index_tokens index
      in length tokens = 3 \<and>
         isl (py_int (tokens ! 1)) = False \<and> isl (py_int (tokens ! 2)) = False)"

text \<open>
  The sequence of \<^verbatim>\<open>append\<close> calls made by the three nested loops of
  \<^verbatim>\<open>getHMMSearchResults\<close>, in the order they are made: one for every item of every
  result file of every cataloged model.
\<close>

definition file_items :: "'s env \<Rightarrow> string \<Rightarrow> (string, 's list) dict" where
  "file_items e path = (case eval_file e path of Inl _ \<Rightarrow> [] | Inr this_scores \<Rightarrow> this_scores)"

definition shard_matches :: "int \<Rightarrow> int \<Rightarrow> (string, 's list) dict \<Rightarrow> (string \<times> 's scored_match) list" where
  "shard_matches alignment_ind hmm_ind this_scores =
     map (\<lambda>(taxon, score). (taxon, (alignment_ind, hmm_ind, score ! 1))) this_scores"

definition result_paths :: "'s env \<Rightarrow> string \<Rightarrow> string list" where
  "result_paths e hmmdir = output_lines (find_results e hmmdir)"

definition model_matches :: "'s env \<Rightarrow> string \<times> hmm_value \<Rightarrow> (string \<times> 's scored_match) list" where
  "model_matches e = (\<lambda>(index, hmmdir, alignment_ind, hmm_ind, num_seq).
     concat (map (\<lambda>path. shard_matches alignment_ind hmm_ind (file_items e path))
               (result_paths e hmmdir)))"

definition all_matches :: "'s env \<Rightarrow> (string, hmm_value) dict \<Rightarrow> (string \<times> 's scored_match) list" where
  "all_matches e index_to_hmms = concat (map (model_matches e) index_to_hmms)"

text \<open>The matches appended for one query, in append order.\<close>

definition appended_for :: "'s env \<Rightarrow> (string, hmm_value) dict \<Rightarrow> string \<Rightarrow> 's scored_match list" where
  "appended_for e index_to_hmms taxon =
     map snd (filter (\<lambda>(t, m). t = taxon) (all_matches e index_to_hmms))"

text \<open>
  The number of result files under a model's directory in which a query occurs
  (counting a file once for every item it holds for the query).
\<close>

definition shard_count :: "'s env \<Rightarrow> string \<Rightarrow> string \<times> hmm_value \<Rightarrow> nat" where
  "shard_count e taxon = (\<lambda>(index, hmmdir, alignment_ind, hmm_ind, num_seq).
     sum_list (map (\<lambda>path. count_list (map fst (file_items e path)) taxon)
                 (result_paths e hmmdir)))"


definition matches_of_model :: "'s env \<Rightarrow> string \<Rightarrow> string \<times> hmm_value \<Rightarrow> 's scored_match list" where
  "matches_of_model e taxon m = map snd (filter (\<lambda>(t, x). t = taxon) (model_matches e m))"

section \<open>Concrete artifact trees\<close>

text \<open>
  An artifact tree given by tables: a command run on a path outside its table prints
  nothing, a path outside \<open>existing\<close> does not exist, and a file outside \<open>files\<close>
  cannot be opened.
\<close>

definition lookup_output :: "(string \<times> string) list \<Rightarrow> string \<Rightarrow> string" where
  "lookup_output table path = (case map_of table path of None \<Rightarrow> [] | Some out \<Rightarrow> out)"

definition unlines :: "string list \<Rightarrow> string" where
  "unlines ls = concat (map (\<lambda>l. l @ [CHR 0x0A]) ls)"

definition env_of_tables ::
  "(string \<times> string) list \<Rightarrow> (string \<times> string) list \<Rightarrow> string list \<Rightarrow>
   (string \<times> string) list \<Rightarrow> (string \<times> string) list \<Rightarrow>
   (string \<times> (string, 's list) dict) list \<Rightarrow> 's env" where
  "env_of_tables models heads existing counts results files =
     \<lparr> find_models = lookup_output models,
       head15 = lookup_output heads,
       path_exists = (\<lambda>path. path \<in> set existing),
       wc_l = lookup_output counts,
       find_results = lookup_output results,
       eval_file = (\<lambda>path. case map_of files path of None \<Rightarrow> Inl FileError | Some d \<Rightarrow> Inr d) \<rparr>"

text \<open>
  The example scenario: three models with training-sequence counts 50, 80 and 10 and
  subset alignments of 200, 150 and 5 records; Q1 scores 55 against the first model and
  61 against the second, Q2 scores 40 against the first.
\<close>

definition demo_env :: "int env" where
  "demo_env = env_of_tables
     [(''/r'', unlines [''/r/1/A_1_0/hmmbuild.model.1'', ''/r/2/A_2_0/hmmbuild.model.1'',
                        ''/r/3/A_3_0/hmmbuild.model.1''])]
     [(''/r/1/A_1_0/hmmbuild.model.1'', unlines [''NAME  m1'', ''NSEQ  50'']),
      (''/r/2/A_2_0/hmmbuild.model.1'', unlines [''NAME  m2'', ''NSEQ  80'']),
      (''/r/3/A_3_0/hmmbuild.model.1'', unlines [''NAME  m3'', ''NSEQ  10''])]
     [''/r/1/subset.aln.fasta'', ''/r/2/subset.aln.fasta'', ''/r/3/subset.aln.fasta'']
     [(''/r/1/subset.aln.fasta'', unlines [''400 /r/1/subset.aln.fasta'']),
      (''/r/2/subset.aln.fasta'', unlines [''300 /r/2/subset.aln.fasta'']),
      (''/r/3/subset.aln.fasta'', unlines [''10 /r/3/subset.aln.fasta''])]
     [(''/r/1/A_1_0'', unlines [''/r/1/A_1_0/hmmsearch.results.1'']),
      (''/r/2/A_2_0'', unlines [''/r/2/A_2_0/hmmsearch.results.1''])]
     [(''/r/1/A_1_0/hmmsearch.results.1'', [(''Q1'', [0, 55]), (''Q2'', [0, 40])]),
      (''/r/2/A_2_0/hmmsearch.results.1'', [(''Q1'', [0, 61])])]"

definition demo_catalog :: "(string, hmm_value) dict" where
  "demo_catalog = [(''A_1_0'', (''/r/1/A_1_0'', 1, 0, 50)), (''A_2_0'', (''/r/2/A_2_0'', 2, 0, 80))]"

text \<open>
  One model whose search was run in two shards, both of which hold a score for Q1.
\<close>

definition shard_env :: "int env" where
  "shard_env = env_of_tables [] [] [] []
     [(''/r/1/A_1_0'', unlines [''/r/1/A_1_0/hmmsearch.results.1'',
                                 ''/r/1/A_1_0/hmmsearch.results.2''])]
     [(''/r/1/A_1_0/hmmsearch.results.1'', [(''Q1'', [0, 61])]),
      (''/r/1/A_1_0/hmmsearch.results.2'', [(''Q1'', [0, 55])])]"

definition shard_catalog :: "(string, hmm_value) dict" where
  "shard_catalog = [(''A_1_0'', (''/r/1/A_1_0'', 1, 0, 50))]"


text \<open>
  The example tree with descriptors that have no \<^verbatim>\<open>NSEQ\<close> line, and with no subset
  alignment file at all.
\<close>

definition no_nseq_env :: "int env" where
  "no_nseq_env = demo_env\<lparr>head15 := (\<lambda>path. unlines [''NAME  m1'', ''LENG  7''])\<rparr>"

definition no_sibling_env :: "int env" where
  "no_sibling_env = demo_env\<lparr>path_exists := (\<lambda>path. False)\<rparr>"

text \<open>
  Two descriptors whose containing directories have the same basename \<^verbatim>\<open>A_1_0\<close>, and
  subset alignments of the same size.
\<close>

definition dup_env :: "int env" where
  "dup_env = env_of_tables
     [(''/r'', unlines [''/r/a/A_1_0/hmmbuild.model.1'', ''/r/b/A_1_0/hmmbuild.model.1''])]
     [(''/r/a/A_1_0/hmmbuild.model.1'', unlines [''NAME  m1'', ''NSEQ  50'']),
      (''/r/b/A_1_0/hmmbuild.model.1'', unlines [''NAME  m2'', ''NSEQ  60''])]
     [''/r/a/subset.aln.fasta'', ''/r/b/subset.aln.fasta'']
     [(''/r/a/subset.aln.fasta'', unlines [''400 /r/a/subset.aln.fasta'']),
      (''/r/b/subset.aln.fasta'', unlines [''400 /r/b/subset.aln.fasta''])]
     [] []"



text \<open>
  The ranked scores of the example scenario: query Q1 scored against the models of
  alignments 2 and 1, query Q2 against the model of alignment 1.
\<close>

definition demo_scores :: "int ranked_scores" where
  "demo_scores = [(''Q1'', [(2, 0, 61), (1, 0, 55)]), (''Q2'', [(1, 0, 40)])]"



section \<open>The same artifacts enumerated in another order\<close>









section \<open>Dictionary lemmas\<close>

lemma dict_set_update: "dict_set k v d = AList.update k v d"
  by (induction d) auto

lemma map_of_dict_set: "map_of (dict_set k v d) = (map_of d)(k \<mapsto> v)"
  by (simp add: dict_set_update update_conv')

lemma keys_dict_set: "fst ` set (dict_set k v d) = insert k (fst ` set d)"
  by (simp add: dict_set_update dom_update)

lemma is_dict_set: "is_dict d \<Longrightarrow> is_dict (dict_set k v d)"
  by (simp add: is_dict_def dict_set_update distinct_update)

lemma dd_get_append:
  "dd_get (dd_append k v d) k' = (if k' = k then dd_get d k @ [v] else dd_get d k')"
  by (simp add: dd_get_def dd_append_def map_of_dict_set)

lemma keys_dd_append: "fst ` set (dd_append k v d) = insert k (fst ` set d)"
  by (simp add: dd_append_def keys_dict_set)

lemma is_dict_dd_append: "is_dict d \<Longrightarrow> is_dict (dd_append k v d)"
  by (simp add: dd_append_def is_dict_set)

lemma dd_get_entry: "is_dict d \<Longrightarrow> (k, xs) \<in> set d \<Longrightarrow> dd_get d k = xs"
  by (simp add: dd_get_def is_dict_def)

lemma set_dict_set: "(k', x) \<in> set (dict_set k v d) \<Longrightarrow> (k', x) \<in> set d \<or> (k' = k \<and> x = v)"
  by (induction d) (auto split: if_splits)

lemma dd_append_no_empty:
  "(k', xs) \<in> set (dd_append k v d) \<Longrightarrow> (k', xs) \<in> set d \<or> xs \<noteq> []"
  using set_dict_set [of k' xs k "dd_get d k @ [v]" d] by (auto simp: dd_append_def)

section \<open>Grouping by key\<close>

lemma dd_get_Nil: "dd_get [] k = []"
  by (simp add: dd_get_def)

lemma dd_extend_get:
  "dd_get (foldl (\<lambda>d (k, v). dd_append k v d) d kvs) k =
   dd_get d k @ map snd (filter (\<lambda>(k', v). k' = k) kvs)"
  by (induction kvs arbitrary: d) (auto simp: dd_get_append)

lemma dd_extend_keys:
  "fst ` set (foldl (\<lambda>d (k, v). dd_append k v d) d kvs) = fst ` set d \<union> fst ` set kvs"
proof (induction kvs arbitrary: d)
  case Nil
  then show ?case by simp
next
  case (Cons kv kvs)
  obtain k v where kv: "kv = (k, v)" by (cases kv)
  have "fst ` set (foldl (\<lambda>d (k, v). dd_append k v d) (dd_append k v d) kvs)
      = insert k (fst ` set d) \<union> fst ` set kvs"
    by (simp only: Cons.IH keys_dd_append)
  with kv show ?case by simp
qed

lemma dd_extend_is_dict:
  "is_dict d \<Longrightarrow> is_dict (foldl (\<lambda>d (k, v). dd_append k v d) d kvs)"
  by (induction kvs arbitrary: d) (auto simp: is_dict_dd_append)

lemma dd_extend_no_empty:
  "(k, xs) \<in> set (foldl (\<lambda>d (k, v). dd_append k v d) d kvs) \<Longrightarrow> (k, xs) \<in> set d \<or> xs \<noteq> []"
proof (induction kvs arbitrary: d)
  case Nil
  then show ?case by simp
next
  case (Cons kv kvs)
  obtain k' v where kv: "kv = (k', v)" by (cases kv)
  from Cons.prems kv have "(k, xs) \<in> set (foldl (\<lambda>d (k, v). dd_append k v d) (dd_append k' v d) kvs)"
    by simp
  from Cons.IH [OF this] show ?case using dd_append_no_empty [of k xs k' v d] by blast
qed

lemma assign_loop_result:
  "assign_loop scores qa =
     (if \<exists>taxon. (taxon, []) \<in> set scores then Inl IndexError
      else Inr (foldl (\<lambda>d (k, v). dd_append k v d) qa
                  (map (\<lambda>(taxon, score). (fst (hd score), taxon)) scores)))"
proof (induction scores arbitrary: qa)
  case Nil
  then show ?case by simp
next
  case (Cons p scores)
  obtain taxon score where p: "p = (taxon, score)" by (cases p)
  show ?case
  proof (cases score)
    case Nil
    with p show ?thesis by auto
  next
    case (Cons best more)
    with p Cons.IH [of "dd_append (fst best) taxon qa"] show ?thesis by auto
  qed
qed

lemma bucket_of_assignment:
  assumes "assign_loop scores [] = Inr qa"
  shows "dd_get qa a = map fst (filter (\<lambda>(taxon, score). fst (hd score) = a) scores)"
proof -
  from assms have qa: "qa = foldl (\<lambda>d (k, v). dd_append k v d) []
                  (map (\<lambda>(taxon, score). (fst (hd score), taxon)) scores)"
    by (simp add: assign_loop_result split: if_splits)
  have "map snd (filter (\<lambda>(k', v). k' = a) (map (\<lambda>(taxon, score). (fst (hd score), taxon)) scores))
      = map fst (filter (\<lambda>(taxon, score). fst (hd score) = a) scores)"
    by (induction scores) auto
  with qa show ?thesis by (simp add: dd_extend_get dd_get_Nil)
qed

lemma count_keys_dict:
  "is_dict d \<Longrightarrow> (k, v) \<in> set d \<Longrightarrow> P v \<Longrightarrow>
   count_list (map fst (filter (\<lambda>(k', v'). P v') d)) k = 1"
proof (induction d)
  case Nil
  then show ?case by simp
next
  case (Cons p d)
  obtain k' v' where p: "p = (k', v')" by (cases p)
  show ?case
  proof (cases "k' = k")
    case True
    with Cons.prems p have "v' = v" and "k \<notin> fst ` set d"
      by (auto simp: is_dict_def rev_image_eqI)
    then have "k \<notin> set (map fst (filter (\<lambda>(k', v'). P v') d))" by auto
    then have "count_list (map fst (filter (\<lambda>(k', v'). P v') d)) k = 0"
      by (simp add: count_list_0_iff)
    with True p \<open>v' = v\<close> Cons.prems(3) show ?thesis by simp
  next
    case False
    with Cons.prems p have "(k, v) \<in> set d" and "is_dict d" by (auto simp: is_dict_def)
    from Cons.IH [OF this(2) this(1) Cons.prems(3)] False p show ?thesis by simp
  qed
qed

section \<open>Stable descending sort\<close>

lemma sorted_desc_sorted: "sorted_wrt (\<lambda>a b. f b \<le> f a) (sorted_desc f xs)"
proof -
  have "sorted (map f (sort_key f (rev xs)))" by simp
  then have "sorted_wrt (\<lambda>a b. f a \<le> f b) (sort_key f (rev xs))"
    by (simp only: sorted_wrt_map)
  then show ?thesis
    by (simp add: sorted_desc_def sorted_wrt_rev)
qed

lemma sorted_desc_stable:
  "filter (\<lambda>x. f x = k) (sorted_desc f xs) = filter (\<lambda>x. f x = k) xs"
proof -
  have "filter (\<lambda>x. f x = k) (sort_key f (rev xs)) = filter (\<lambda>x. f x = k) (rev xs)"
    by (rule sort_key_stable)
  then have "rev (filter (\<lambda>x. f x = k) (sort_key f (rev xs))) = filter (\<lambda>x. f x = k) xs"
    by (simp add: rev_filter)
  then show ?thesis by (simp add: sorted_desc_def rev_filter)
qed

lemma mset_sorted_desc: "mset (sorted_desc f xs) = mset xs"
  by (simp add: sorted_desc_def)

lemma sorted_desc_Nil_iff: "sorted_desc f xs = [] \<longleftrightarrow> xs = []"
  using mset_sorted_desc [of f xs] by (metis mset_zero_iff)

section \<open>The collected and ranked scores\<close>

lemma items_loop_result:
  "items_loop this_scores a h scores = Inr scores' \<Longrightarrow>
   scores' = foldl (\<lambda>d (k, v). dd_append k v d) scores (shard_matches a h this_scores)"
proof (induction this_scores arbitrary: scores)
  case Nil
  then show ?case by (simp add: shard_matches_def)
next
  case (Cons item rest)
  obtain taxon score where item: "item = (taxon, score)" by (cases item)
  from Cons.prems item have
    "items_loop rest a h (dd_append taxon (a, h, score ! 1) scores) = Inr scores'"
    by (simp split: if_splits)
  from Cons.IH [OF this] item show ?case by (simp add: shard_matches_def)
qed

lemma paths_loop_result:
  "paths_loop e paths a h scores = Inr scores' \<Longrightarrow>
   scores' = foldl (\<lambda>d (k, v). dd_append k v d) scores
               (concat (map (\<lambda>path. shard_matches a h (file_items e path)) paths))"
proof (induction paths arbitrary: scores)
  case Nil
  then show ?case by simp
next
  case (Cons path rest)
  from Cons.prems obtain this_scores mid where
    ev: "eval_file e path = Inr this_scores" and
    it: "items_loop this_scores a h scores = Inr mid" and
    re: "paths_loop e rest a h mid = Inr scores'"
    by (auto split: sum.splits)
  from ev have "file_items e path = this_scores" by (simp add: file_items_def)
  with items_loop_result [OF it] Cons.IH [OF re] show ?case by simp
qed

lemma models_loop_result:
  "models_loop e index_to_hmms scores = Inr scores' \<Longrightarrow>
   scores' = foldl (\<lambda>d (k, v). dd_append k v d) scores (all_matches e index_to_hmms)"
proof (induction index_to_hmms arbitrary: scores)
  case Nil
  then show ?case by (simp add: all_matches_def)
next
  case (Cons m rest)
  obtain index hmmdir a h n where m: "m = (index, hmmdir, a, h, n)" by (cases m)
  from Cons.prems m obtain mid where
    pl: "paths_loop e (output_lines (find_results e hmmdir)) a h scores = Inr mid" and
    re: "models_loop e rest mid = Inr scores'"
    by (auto split: sum.splits)
  from paths_loop_result [OF pl] Cons.IH [OF re] m show ?case
    by (simp add: all_matches_def model_matches_def result_paths_def)
qed

lemma dict_set_present:
  "is_dict d \<Longrightarrow> k \<in> fst ` set d \<Longrightarrow>
   dict_set k v d = map (\<lambda>(k', v'). (k', if k' = k then v else v')) d"
proof (induction d)
  case Nil
  then show ?case by simp
next
  case (Cons p d)
  obtain k' v' where p: "p = (k', v')" by (cases p)
  show ?case
  proof (cases "k' = k")
    case True
    with Cons.prems p have "k \<notin> fst ` set d" by (simp add: is_dict_def)
    then have "map (\<lambda>(k', v'). (k', if k' = k then v else v')) d = d"
      by (induction d) auto
    with True p show ?thesis by simp
  next
    case False
    with Cons.prems p have "is_dict d" and "k \<in> fst ` set d" by (auto simp: is_dict_def)
    from Cons.IH [OF this] False p show ?thesis by simp
  qed
qed

lemma rank_loop_result:
  "is_dict scores \<Longrightarrow> distinct keys \<Longrightarrow> set keys \<subseteq> fst ` set scores \<Longrightarrow>
   rank_loop keys scores =
     map (\<lambda>(taxon, ms). (taxon, if taxon \<in> set keys then sorted_desc (\<lambda>x. snd (snd x)) ms else ms)) scores"
proof (induction keys arbitrary: scores)
  case Nil
  then show ?case by simp
next
  case (Cons k keys)
  let ?srt = "sorted_desc (\<lambda>x. snd (snd x))"
  let ?step = "dict_set k (?srt (dd_get scores k)) scores"
  from Cons.prems have k: "k \<in> fst ` set scores" and nk: "k \<notin> set keys" by auto
  have step: "?step = map (\<lambda>(k', v'). (k', if k' = k then ?srt (dd_get scores k) else v')) scores"
    by (rule dict_set_present [OF Cons.prems(1) k])
  have step': "?step = map (\<lambda>(k', v'). (k', if k' = k then ?srt v' else v')) scores"
    unfolding step using dd_get_entry [OF Cons.prems(1)] by (auto simp: split_def)
  have d: "is_dict ?step" by (rule is_dict_set [OF Cons.prems(1)])
  have ks: "set keys \<subseteq> fst ` set ?step" using Cons.prems(3) by (auto simp: keys_dict_set)
  from Cons.prems(2) have dk: "distinct keys" by simp
  have "rank_loop (k # keys) scores = rank_loop keys ?step" by simp
  also have "\<dots> = map (\<lambda>(taxon, ms). (taxon, if taxon \<in> set keys then ?srt ms else ms)) ?step"
    by (rule Cons.IH [OF d dk ks])
  also have "\<dots> = map (\<lambda>(taxon, ms). (taxon, if taxon \<in> set (k # keys) then ?srt ms else ms)) scores"
    unfolding step' using nk by (auto simp: split_def)
  finally show ?case .
qed

lemma map_of_map_values:
  "map_of (map (\<lambda>(k, v). (k, f v)) d) k = map_option f (map_of d k)"
  by (induction d) auto

lemma collected_is_dict:
  "is_dict (foldl (\<lambda>d (k, v). dd_append k v d) [] kvs)"
  using dd_extend_is_dict [of "[]" kvs] by (simp add: is_dict_def)

lemma getHMMSearchResults_result:
  assumes "getHMMSearchResults e index_to_hmms = Inr ranked"
  shows "ranked = map (\<lambda>(taxon, ms). (taxon, sorted_desc (\<lambda>x. snd (snd x)) ms))
                    (foldl (\<lambda>d (k, v). dd_append k v d) [] (all_matches e index_to_hmms))"
proof -
  let ?c = "foldl (\<lambda>d (k, v). dd_append k v d) [] (all_matches e index_to_hmms)"
  from assms obtain scores where ml: "models_loop e index_to_hmms [] = Inr scores"
    and r: "ranked = rank_loop (map fst scores) scores"
    by (auto simp: getHMMSearchResults_def split: sum.splits)
  from models_loop_result [OF ml] have sc: "scores = ?c" .
  have d: "is_dict scores" unfolding sc by (rule collected_is_dict)
  then have dk: "distinct (map fst scores)" by (simp add: is_dict_def)
  have "rank_loop (map fst scores) scores =
     map (\<lambda>(taxon, ms). (taxon, if taxon \<in> set (map fst scores) then sorted_desc (\<lambda>x. snd (snd x)) ms else ms)) scores"
    by (rule rank_loop_result [OF d dk]) simp
  also have "\<dots> = map (\<lambda>(taxon, ms). (taxon, sorted_desc (\<lambda>x. snd (snd x)) ms)) scores"
    by (rule map_cong) (auto simp: rev_image_eqI)
  finally show ?thesis using r sc by simp
qed

lemma ranked_entry:
  assumes "getHMMSearchResults e index_to_hmms = Inr ranked"
  shows "is_dict ranked"
    and "fst ` set ranked = fst ` set (all_matches e index_to_hmms)"
    and "dd_get ranked taxon = sorted_desc (\<lambda>x. snd (snd x)) (appended_for e index_to_hmms taxon)"
proof -
  let ?c = "foldl (\<lambda>d (k, v). dd_append k v d) [] (all_matches e index_to_hmms)"
  let ?srt = "sorted_desc (\<lambda>x. snd (snd x))"
  have r: "ranked = map (\<lambda>(taxon, ms). (taxon, ?srt ms)) ?c"
    by (rule getHMMSearchResults_result [OF assms])
  have keys: "map fst ranked = map fst ?c" unfolding r by (simp add: split_def comp_def)
  have "is_dict ?c" by (rule collected_is_dict)
  with keys show "is_dict ranked" by (simp add: is_dict_def)
  from keys have "set (map fst ranked) = set (map fst ?c)" by simp
  then show "fst ` set ranked = fst ` set (all_matches e index_to_hmms)"
    by (simp add: dd_extend_keys)
  have mo: "map_of ranked taxon = map_option ?srt (map_of ?c taxon)"
    unfolding r by (rule map_of_map_values)
  have "dd_get ?c taxon = appended_for e index_to_hmms taxon"
    by (simp add: dd_extend_get dd_get_Nil appended_for_def)
  with mo show "dd_get ranked taxon = ?srt (appended_for e index_to_hmms taxon)"
    by (cases "map_of ?c taxon") (auto simp: dd_get_def sorted_desc_def)
qed

lemma ranked_lists_nonempty:
  assumes "getHMMSearchResults e index_to_hmms = Inr ranked"
      and "(taxon, matches) \<in> set ranked"
  shows "matches \<noteq> []"
proof -
  let ?c = "foldl (\<lambda>d (k, v). dd_append k v d) [] (all_matches e index_to_hmms)"
  have "ranked = map (\<lambda>(taxon, ms). (taxon, sorted_desc (\<lambda>x. snd (snd x)) ms)) ?c"
    by (rule getHMMSearchResults_result [OF assms(1)])
  with assms(2) obtain ms where ms: "(taxon, ms) \<in> set ?c"
    and m: "matches = sorted_desc (\<lambda>x. snd (snd x)) ms"
    by auto
  from dd_extend_no_empty [OF ms] have "ms \<noteq> []" by simp
  with m show ?thesis by (simp add: sorted_desc_Nil_iff)
qed

section \<open>Properties of the Assignment Resolver\<close>

text \<open>
  Claim C1. When the ranked scores are a dictionary in which every query has at least one
  scored match, \<^verbatim>\<open>assignQueryToSubset\<close> returns an assignment in which every alignment
  index has one bucket; each query stands exactly once in the bucket of the alignment
  index of the first entry of its ranked list and in no other bucket; a query that is
  not a key of the ranked scores stands in no bucket.
\<close>

theorem assign_top_ranked_exactly_once:
  assumes "is_dict scores"
      and "\<forall>(taxon, score) \<in> set scores. score \<noteq> []"
  shows "\<exists>qa. assignQueryToSubset scores hmm_indexes index_to_hmms = Inr qa \<and> is_dict qa \<and>
           (\<forall>(taxon, score) \<in> set scores.
              (\<exists>bucket. (fst (hd score), bucket) \<in> set qa \<and> count_list bucket taxon = 1) \<and>
              (\<forall>(a, bucket) \<in> set qa. a \<noteq> fst (hd score) \<longrightarrow> taxon \<notin> set bucket)) \<and>
           (\<forall>taxon. taxon \<notin> fst ` set scores \<longrightarrow> (\<forall>(a, bucket) \<in> set qa. taxon \<notin> set bucket))"
proof -
  from assms(2) have no_empty: "\<not> (\<exists>taxon. (taxon, []) \<in> set scores)" by auto
  then obtain qa where run: "assign_loop scores [] = Inr qa"
    by (simp add: assign_loop_result)
  have dict: "is_dict qa"
    using run no_empty dd_extend_is_dict [of "[]"]
    by (auto simp: assign_loop_result is_dict_def)
  have bucket: "bucket = map fst (filter (\<lambda>(taxon, score). fst (hd score) = a) scores)"
    if "(a, bucket) \<in> set qa" for a bucket
    using bucket_of_assignment [OF run, of a] dd_get_entry [OF dict that] by simp
  have keys: "fst ` set qa = (\<lambda>(taxon, score). fst (hd score)) ` set scores"
    using run no_empty dd_extend_keys [of "[]" "map (\<lambda>(taxon, score). (fst (hd score), taxon)) scores"]
    by (auto simp: assign_loop_result image_image split_def)
  have part1: "(\<exists>bucket. (fst (hd score), bucket) \<in> set qa \<and> count_list bucket taxon = 1) \<and>
              (\<forall>(a, bucket) \<in> set qa. a \<noteq> fst (hd score) \<longrightarrow> taxon \<notin> set bucket)"
    if mem: "(taxon, score) \<in> set scores" for taxon score
  proof
    from mem keys have "fst (hd score) \<in> fst ` set qa" by force
    then obtain bucket where b: "(fst (hd score), bucket) \<in> set qa" by auto
    have "count_list bucket taxon = 1"
      unfolding bucket [OF b]
      using count_keys_dict [OF assms(1) mem, of "\<lambda>s. fst (hd s) = fst (hd score)"] by simp
    with b show "\<exists>bucket. (fst (hd score), bucket) \<in> set qa \<and> count_list bucket taxon = 1"
      by blast
  next
    show "\<forall>(a, bucket) \<in> set qa. a \<noteq> fst (hd score) \<longrightarrow> taxon \<notin> set bucket"
    proof (clarify)
      fix a bucket
      assume ab: "(a, bucket) \<in> set qa" and ne: "a \<noteq> fst (hd score)" and t: "taxon \<in> set bucket"
      from t bucket [OF ab] obtain score' where
        "(taxon, score') \<in> set scores" and "fst (hd score') = a" by auto
      moreover from assms(1) mem this(1) have "score' = score"
        by (metis is_dict_def eq_key_imp_eq_value)
      ultimately show False using ne by simp
    qed
  qed
  have part2: "\<forall>(a, bucket) \<in> set qa. taxon \<notin> set bucket" if "taxon \<notin> fst ` set scores" for taxon
  proof (clarify)
    fix a bucket
    assume ab: "(a, bucket) \<in> set qa" and t: "taxon \<in> set bucket"
    from t bucket [OF ab] have "taxon \<in> fst ` set scores" by force
    with that show False by simp
  qed
  have "assignQueryToSubset scores hmm_indexes index_to_hmms = Inr qa"
    using run by (simp add: assignQueryToSubset_def)
  moreover have "\<forall>(taxon, score) \<in> set scores.
              (\<exists>bucket. (fst (hd score), bucket) \<in> set qa \<and> count_list bucket taxon = 1) \<and>
              (\<forall>(a, bucket) \<in> set qa. a \<noteq> fst (hd score) \<longrightarrow> taxon \<notin> set bucket)"
    using part1 by blast
  moreover have "\<forall>taxon. taxon \<notin> fst ` set scores \<longrightarrow> (\<forall>(a, bucket) \<in> set qa. taxon \<notin> set bucket)"
    using part2 by blast
  ultimately show ?thesis using dict by blast
qed

theorem assign_top_ranked_exactly_once_witness:
  "is_dict demo_scores \<and>
   assignQueryToSubset demo_scores () () = Inr [(2, [''Q1'']), (1, [''Q2''])] \<and>
   (\<exists>qa. assignQueryToSubset demo_scores () () = Inr qa \<and> is_dict qa \<and>
      (\<forall>(taxon, score) \<in> set demo_scores.
         (\<exists>bucket. (fst (hd score), bucket) \<in> set qa \<and> count_list bucket taxon = 1) \<and>
         (\<forall>(a, bucket) \<in> set qa. a \<noteq> fst (hd score) \<longrightarrow> taxon \<notin> set bucket)) \<and>
      (\<forall>taxon. taxon \<notin> fst ` set demo_scores \<longrightarrow>
         (\<forall>(a, bucket) \<in> set qa. taxon \<notin> set bucket)))"
proof -
  have h1: "is_dict demo_scores"
    by (simp add: is_dict_def demo_scores_def)
  have h2: "\<forall>(taxon, score) \<in> set demo_scores. score \<noteq> []"
    by (simp add: demo_scores_def)
  have run: "assignQueryToSubset demo_scores () () = Inr [(2, [''Q1'']), (1, [''Q2''])]"
    by (simp add: assignQueryToSubset_def demo_scores_def dd_append_def dd_get_def)
  from h1 h2 run assign_top_ranked_exactly_once [OF h1 h2, of "()" "()"]
  show ?thesis by blast
qed

text \<open>
  Claim C4, as the source behaves. When some query key is mapped to an empty ranked
  list, \<^verbatim>\<open>assignQueryToSubset\<close> raises \<^verbatim>\<open>IndexError\<close> and returns no assignment; it
  returns an assignment for exactly the inputs in which no ranked list is empty, and so
  for every mapping returned by \<^verbatim>\<open>getHMMSearchResults\<close>.
\<close>

theorem assign_empty_list_raises:
  fixes scores :: "('s::linorder) ranked_scores"
  shows
  "(if \<exists>taxon. (taxon, []) \<in> set scores
    then assignQueryToSubset scores hmm_indexes index_to_hmms = Inl IndexError
    else \<exists>qa. assignQueryToSubset scores hmm_indexes index_to_hmms = Inr qa) \<and>
   (\<forall>(e :: 's env) catalog ranked.
      getHMMSearchResults e catalog = Inr ranked \<longrightarrow>
      (\<exists>qa. assignQueryToSubset ranked hmm_indexes index_to_hmms = Inr qa))"
proof (intro conjI allI impI)
  show "if \<exists>taxon. (taxon, []) \<in> set scores
    then assignQueryToSubset scores hmm_indexes index_to_hmms = Inl IndexError
    else \<exists>qa. assignQueryToSubset scores hmm_indexes index_to_hmms = Inr qa"
    by (simp add: assignQueryToSubset_def assign_loop_result)
next
  fix e catalog ranked
  assume "getHMMSearchResults e catalog = Inr ranked"
  then have "\<not> (\<exists>taxon. (taxon, []) \<in> set ranked)"
    using ranked_lists_nonempty by blast
  then show "\<exists>qa. assignQueryToSubset ranked hmm_indexes index_to_hmms = Inr qa"
    by (simp add: assignQueryToSubset_def assign_loop_result)
qed

theorem assign_empty_list_raises_witness:
  "getHMMSearchResults demo_env demo_catalog = Inr demo_scores \<and>
   (\<exists>qa. assignQueryToSubset demo_scores () () = Inr qa) \<and>
   assignQueryToSubset ((''Q3'', []) # demo_scores) () () = Inl IndexError"
proof -
  have run: "getHMMSearchResults demo_env demo_catalog = Inr demo_scores"
    by code_simp
  have h: "\<exists>taxon. (taxon, []) \<in> set ((''Q3'', []) # demo_scores)"
    by auto
  from assign_empty_list_raises [of "(''Q3'', []) # demo_scores" "()" "()"] h
  have bad: "assignQueryToSubset ((''Q3'', []) # demo_scores) () () = Inl IndexError"
    by simp
  from assign_empty_list_raises [of demo_scores "()" "()"] run
  have "\<exists>qa. assignQueryToSubset demo_scores () () = Inr qa"
    by blast
  with run bad show ?thesis by blast
qed

text \<open>
  The claim as worded (an empty ranked list is skipped and no index error is raised)
  fails on the one-entry dictionary that maps Q1 to the empty list.
\<close>

theorem assign_empty_list_counterexample:
  "assignQueryToSubset [(''Q1'', ([] :: (int \<times> int \<times> int) list))] () () = Inl IndexError"
  by (simp add: assignQueryToSubset_def)


section \<open>Matches by model\<close>

lemma appended_for_by_model:
  "appended_for e index_to_hmms taxon = concat (map (matches_of_model e taxon) index_to_hmms)"
proof -
  have "matches_of_model e taxon = (\<lambda>m. map snd (filter (\<lambda>(t, x). t = taxon) (model_matches e m)))"
    by (rule ext) (simp add: matches_of_model_def)
  then show ?thesis
    by (simp add: appended_for_def all_matches_def filter_concat map_concat comp_def)
qed

lemma count_shard_matches:
  "length (filter (\<lambda>(t, x). t = taxon) (shard_matches a h this_scores)) =
   count_list (map fst this_scores) taxon"
  by (induction this_scores) (auto simp: shard_matches_def)

lemma length_filter_concat:
  "length (filter P (concat xss)) = sum_list (map (\<lambda>xs. length (filter P xs)) xss)"
  by (induction xss) auto

lemma length_matches_of_model:
  "length (matches_of_model e taxon m) = shard_count e taxon m"
proof -
  obtain index hmmdir a h n where m: "m = (index, hmmdir, a, h, n)" by (cases m)
  show ?thesis
    by (simp add: m matches_of_model_def model_matches_def shard_count_def
        length_filter_concat comp_def count_shard_matches)
qed

lemma matches_of_model_indices:
  assumes "x \<in> set (matches_of_model e taxon (index, hmmdir, a, h, n))"
  shows "fst x = a \<and> fst (snd x) = h"
  using assms by (auto simp: matches_of_model_def model_matches_def shard_matches_def)

section \<open>Properties of the Score Collector and Ranker\<close>

text \<open>
  Claim C3. In the mapping returned by \<^verbatim>\<open>getHMMSearchResults\<close> the list of every query
  is sorted by bit score in descending order; it is a rearrangement of the matches
  appended for the query, and for every score the entries with that score stand in the
  order in which they were appended.
\<close>

theorem ranked_lists_sorted_stable:
  assumes "getHMMSearchResults e index_to_hmms = Inr ranked"
      and "(taxon, matches) \<in> set ranked"
  shows "sorted_wrt (\<lambda>a b. snd (snd b) \<le> snd (snd a)) matches \<and>
         mset matches = mset (appended_for e index_to_hmms taxon) \<and>
         (\<forall>s. filter (\<lambda>m. snd (snd m) = s) matches =
              filter (\<lambda>m. snd (snd m) = s) (appended_for e index_to_hmms taxon))"
proof -
  have "dd_get ranked taxon = matches"
    by (rule dd_get_entry [OF ranked_entry(1) [OF assms(1)] assms(2)])
  then have m: "matches = sorted_desc (\<lambda>x. snd (snd x)) (appended_for e index_to_hmms taxon)"
    using ranked_entry(3) [OF assms(1), of taxon] by simp
  show ?thesis
    unfolding m
    using sorted_desc_sorted [of "\<lambda>x. snd (snd x)" "appended_for e index_to_hmms taxon"]
    by (simp add: mset_sorted_desc sorted_desc_stable)
qed

theorem ranked_lists_sorted_stable_witness:
  "getHMMSearchResults demo_env demo_catalog =
     Inr [(''Q1'', [(2, 0, 61), (1, 0, 55)]), (''Q2'', [(1, 0, 40)])] \<and>
   appended_for demo_env demo_catalog ''Q1'' = [(1, 0, 55), (2, 0, 61)] \<and>
   sorted_wrt (\<lambda>a b. snd (snd b) \<le> snd (snd a)) [(2 :: int, 0 :: int, 61 :: int), (1, 0, 55)] \<and>
   mset [(2 :: int, 0 :: int, 61 :: int), (1, 0, 55)] = mset (appended_for demo_env demo_catalog ''Q1'') \<and>
   (\<forall>s. filter (\<lambda>m. snd (snd m) = s) [(2 :: int, 0 :: int, 61 :: int), (1, 0, 55)] =
        filter (\<lambda>m. snd (snd m) = s) (appended_for demo_env demo_catalog ''Q1''))"
proof -
  have run: "getHMMSearchResults demo_env demo_catalog =
     Inr [(''Q1'', [(2, 0, 61), (1, 0, 55)]), (''Q2'', [(1, 0, 40)])]"
    by code_simp
  have mem: "(''Q1'', [(2, 0, 61), (1, 0, 55)]) \<in>
     set [(''Q1'', [(2 :: int, 0 :: int, 61 :: int), (1, 0, 55)]), (''Q2'', [(1, 0, 40)])]"
    by simp
  have app: "appended_for demo_env demo_catalog ''Q1'' = [(1, 0, 55), (2, 0, 61)]"
    by code_simp
  from ranked_lists_sorted_stable [OF run mem] run app show ?thesis by blast
qed

text \<open>
  Claim C5, as the source behaves. The ranked list of a query holds, model by model,
  one scored match for every occurrence of the query in a result file under the
  directory of a cataloged model, each carrying the indices of that model: none is
  omitted, and a query that occurs in \<open>k\<close> result files of a model gets \<open>k\<close> scored
  matches for that model.
\<close>

theorem one_match_per_file_occurrence:
  assumes "getHMMSearchResults e index_to_hmms = Inr ranked"
  shows "mset (dd_get ranked taxon) =
           mset (concat (map (matches_of_model e taxon) index_to_hmms)) \<and>
         length (dd_get ranked taxon) = sum_list (map (shard_count e taxon) index_to_hmms) \<and>
         (\<forall>m \<in> set index_to_hmms.
            length (matches_of_model e taxon m) = shard_count e taxon m \<and>
            (\<forall>x \<in> set (matches_of_model e taxon m).
               fst x = fst (snd (snd m)) \<and> fst (snd x) = fst (snd (snd (snd m)))))"
proof -
  have r: "dd_get ranked taxon =
      sorted_desc (\<lambda>x. snd (snd x)) (concat (map (matches_of_model e taxon) index_to_hmms))"
    using ranked_entry(3) [OF assms, of taxon] by (simp add: appended_for_by_model)
  have a: "mset (dd_get ranked taxon) =
           mset (concat (map (matches_of_model e taxon) index_to_hmms))"
    unfolding r by (rule mset_sorted_desc)
  from a have "length (dd_get ranked taxon) =
      length (concat (map (matches_of_model e taxon) index_to_hmms))"
    by (rule mset_eq_length)
  then have b: "length (dd_get ranked taxon) = sum_list (map (shard_count e taxon) index_to_hmms)"
    by (simp add: length_concat comp_def length_matches_of_model)
  have c: "length (matches_of_model e taxon m) = shard_count e taxon m \<and>
            (\<forall>x \<in> set (matches_of_model e taxon m).
               fst x = fst (snd (snd m)) \<and> fst (snd x) = fst (snd (snd (snd m))))" for m
  proof -
    obtain index hmmdir al h n where m: "m = (index, hmmdir, al, h, n)" by (cases m)
    show ?thesis
      using matches_of_model_indices [of _ e taxon index hmmdir al h n]
      by (auto simp: m length_matches_of_model)
  qed
  from a b c show ?thesis by blast
qed

theorem one_match_per_file_occurrence_witness:
  "getHMMSearchResults shard_env shard_catalog = Inr [(''Q1'', [(1, 0, 61), (1, 0, 55)])] \<and>
   map (shard_count shard_env ''Q1'') shard_catalog = [2] \<and>
   length (dd_get [(''Q1'', [(1 :: int, 0 :: int, 61 :: int), (1, 0, 55)])] ''Q1'') =
     sum_list (map (shard_count shard_env ''Q1'') shard_catalog)"
proof -
  have run: "getHMMSearchResults shard_env shard_catalog =
     Inr [(''Q1'', [(1, 0, 61), (1, 0, 55)])]"
    by code_simp
  have cnt: "map (shard_count shard_env ''Q1'') shard_catalog = [2]"
    by code_simp
  from one_match_per_file_occurrence [OF run, of "''Q1''"] run cnt show ?thesis by blast
qed

text \<open>
  The claim as worded (exactly one scored match for a pair of query and model, also
  when the model has several result files) fails for a model with two result files that
  both hold a score for Q1: the pair gets two scored matches.
\<close>

theorem two_shards_counterexample:
  "getHMMSearchResults shard_env shard_catalog = Inr [(''Q1'', [(1, 0, 61), (1, 0, 55)])]"
  by code_simp

section \<open>The catalog loop\<close>

lemma passes_size_filter_in_range:
  "passes_size_filter e lower upper paths path =
     (case descriptor_nseq e path of Inl _ \<Rightarrow> False
      | Inr num_seq \<Rightarrow> in_range lower upper (length paths) num_seq)"
  by (auto simp: passes_size_filter_def in_range_def split: sum.splits)

lemma header_dict_keys:
  "header_dict xs d = Inr d' \<Longrightarrow> fst ` set d' = fst ` set d \<union> set (concat (map (take 1) xs))"
proof (induction xs arbitrary: d)
  case Nil
  then show ?case by simp
next
  case (Cons x xs)
  from Cons.prems obtain k vs where x: "x = k # vs"
    and run: "header_dict xs (dict_set k (join_str '','' vs) d) = Inr d'"
    by (cases x) auto
  from Cons.IH [OF run] x show ?case by (simp add: keys_dict_set)
qed

lemma lacks_nseq_fails:
  assumes "lacks_nseq e path"
  shows "descriptor_nseq e path = Inl IndexError \<or> descriptor_nseq e path = Inl AssertionError"
proof (cases "header_dict (map py_split (output_lines (head15 e path))) []")
  case (Inl err)
  have "err = IndexError" if "header_dict xs d = Inl err" for xs and d :: "(string, string) dict"
    using that by (induction xs arbitrary: d) (auto split: list.splits)
  with Inl show ?thesis by (auto simp: descriptor_nseq_def)
next
  case (Inr d)
  from header_dict_keys [OF Inr] assms have "''NSEQ'' \<notin> fst ` set d"
    by (simp add: lacks_nseq_def header_keys_def)
  then have "map_of d ''NSEQ'' = None" by (simp add: map_of_eq_None_iff)
  with Inr show ?thesis by (simp add: descriptor_nseq_def dict_get_def)
qed

lemma parse_index_pattern:
  "parse_index index = Inr (a, h) \<longleftrightarrow>
     (length (index_tokens index) = 3 \<and> py_int (index_tokens index ! 1) = Inr a \<and>
      py_int (index_tokens index ! 2) = Inr h)"
proof -
  obtain t ts where sp: "split_on (CHR ''_'') index = t # ts"
    by (cases index; cases "split_on (CHR ''_'') index") (auto split: if_splits list.splits)
  show ?thesis
  proof (cases ts)
    case Nil
    with sp show ?thesis by (simp add: parse_index_def index_tokens_def)
  next
    case c1: (Cons x1 r1)
    show ?thesis
    proof (cases r1)
      case Nil
      with sp c1 show ?thesis by (simp add: parse_index_def index_tokens_def)
    next
      case c2: (Cons x2 r2)
      show ?thesis
      proof (cases r2)
        case Nil
        with sp c1 c2 show ?thesis
          by (auto simp: parse_index_def index_tokens_def split: sum.splits)
      next
        case (Cons x3 r3)
        with sp c1 c2 show ?thesis by (simp add: parse_index_def index_tokens_def)
      qed
    qed
  qed
qed

lemma parse_index_matches:
  "matches_pattern index \<longleftrightarrow> (\<exists>a h. parse_index index = Inr (a, h))"
proof -
  have "isl x = False \<longleftrightarrow> (\<exists>v. x = Inr v)" for x :: "error + int"
    by (cases x) auto
  then show ?thesis
    by (auto simp: parse_index_pattern matches_pattern_def Let_def)
qed

lemma catalog_entry_facts:
  assumes "catalog_entry e path num_seq = Inr (index, tuple, val)"
  shows "path_exists e (subalignment_path_of (dirname path)) \<and>
         index = index_of (dirname path) \<and>
         (\<exists>a h size. parse_index index = Inr (a, h) \<and>
            tuple = (a, size, h, num_seq) \<and> val = (dirname path, a, h, num_seq))"
  using assms
  by (auto simp: catalog_entry_def Let_def split: if_splits sum.splits)

lemma catalog_entry_fails:
  "\<not> path_exists e (subalignment_path_of (dirname path)) \<or>
   \<not> matches_pattern (index_of (dirname path)) \<Longrightarrow>
   \<exists>err. catalog_entry e path num_seq = Inl err"
proof (cases "catalog_entry e path num_seq")
  case (Inl err)
  then show ?thesis by simp
next
  case (Inr entry)
  assume bad: "\<not> path_exists e (subalignment_path_of (dirname path)) \<or>
   \<not> matches_pattern (index_of (dirname path))"
  obtain index tuple val where "entry = (index, tuple, val)" by (cases entry)
  with Inr catalog_entry_facts [of e path num_seq index tuple val] bad
  show ?thesis by (auto simp: parse_index_matches)
qed

lemma entry_of_facts:
  assumes "entry_of e path = Some (index, tuple, val)"
  shows "path_exists e (subalignment_path_of (dirname path)) \<and>
         index = index_of (dirname path) \<and>
         (\<exists>a h size num_seq. descriptor_nseq e path = Inr num_seq \<and>
            parse_index index = Inr (a, h) \<and>
            tuple = (a, size, h, num_seq) \<and> val = (dirname path, a, h, num_seq))"
proof -
  from assms obtain num_seq where n: "descriptor_nseq e path = Inr num_seq"
    and c: "catalog_entry e path num_seq = Inr (index, tuple, val)"
    by (auto simp: entry_of_def split: sum.splits)
  from catalog_entry_facts [OF c] n show ?thesis by blast
qed

lemma obtain_loop_success:
  "obtain_loop e lower upper n paths (hi, ih) = Inr (hi', ih') \<Longrightarrow>
   (\<forall>p \<in> set paths. \<exists>num. descriptor_nseq e p = Inr num) \<and>
   (\<exists>entries.
      map (entry_of e)
        (filter (\<lambda>p. case descriptor_nseq e p of Inl _ \<Rightarrow> False
                      | Inr num \<Rightarrow> in_range lower upper n num) paths) = map Some entries \<and>
      hi' = hi @ map (\<lambda>(index, tuple, val). tuple) entries \<and>
      ih' = foldl (\<lambda>d (index, tuple, val). dict_set index val d) ih entries)"
proof (induction paths arbitrary: hi ih)
  case Nil
  then show ?case by simp
next
  case (Cons path rest)
  from Cons.prems obtain num where num: "descriptor_nseq e path = Inr num"
    by (auto split: sum.splits)
  show ?case
  proof (cases "in_range lower upper n num")
    case False
    with Cons.prems num have "obtain_loop e lower upper n rest (hi, ih) = Inr (hi', ih')"
      by simp
    from Cons.IH [OF this] num False show ?thesis by simp
  next
    case True
    with Cons.prems num obtain index tuple val where
      ce: "catalog_entry e path num = Inr (index, tuple, val)" and
      run: "obtain_loop e lower upper n rest (hi @ [tuple], dict_set index val ih) = Inr (hi', ih')"
      by (auto split: sum.splits)
    from ce num have eo: "entry_of e path = Some (index, tuple, val)"
      by (simp add: entry_of_def)
    from Cons.IH [OF run] obtain entries where
      all: "\<forall>p \<in> set rest. \<exists>num. descriptor_nseq e p = Inr num" and
      m: "map (entry_of e)
        (filter (\<lambda>p. case descriptor_nseq e p of Inl _ \<Rightarrow> False
                      | Inr num \<Rightarrow> in_range lower upper n num) rest) = map Some entries" and
      h: "hi' = (hi @ [tuple]) @ map (\<lambda>(index, tuple, val). tuple) entries" and
      i: "ih' = foldl (\<lambda>d (index, tuple, val). dict_set index val d) (dict_set index val ih) entries"
      by blast
    have "map (entry_of e)
        (filter (\<lambda>p. case descriptor_nseq e p of Inl _ \<Rightarrow> False
                      | Inr num \<Rightarrow> in_range lower upper n num) (path # rest))
        = map Some ((index, tuple, val) # entries)"
      using m num True eo by simp
    moreover have "hi' = hi @ map (\<lambda>(index, tuple, val). tuple) ((index, tuple, val) # entries)"
      using h by simp
    moreover have "ih' = foldl (\<lambda>d (index, tuple, val). dict_set index val d) ih
        ((index, tuple, val) # entries)"
      using i by simp
    moreover have "\<forall>p \<in> set (path # rest). \<exists>num. descriptor_nseq e p = Inr num"
      using all num by simp
    ultimately show ?thesis by blast
  qed
qed

lemma obtain_loop_fails:
  assumes "p \<in> set paths"
      and "case descriptor_nseq e p of Inl _ \<Rightarrow> True
           | Inr num \<Rightarrow> in_range lower upper n num \<and> isl (catalog_entry e p num)"
  shows "\<exists>err. obtain_loop e lower upper n paths acc = Inl err"
proof (cases "obtain_loop e lower upper n paths acc")
  case (Inl err)
  then show ?thesis by simp
next
  case (Inr res)
  let ?inc = "\<lambda>p. case descriptor_nseq e p of Inl _ \<Rightarrow> False
                      | Inr num \<Rightarrow> in_range lower upper n num"
  obtain hi ih where acc: "acc = (hi, ih)" by (cases acc)
  obtain hi' ih' where "res = (hi', ih')" by (cases res)
  with Inr acc have ok: "obtain_loop e lower upper n paths (hi, ih) = Inr (hi', ih')"
    by simp
  from obtain_loop_success [OF ok] obtain entries where
    all: "\<forall>q \<in> set paths. \<exists>num. descriptor_nseq e q = Inr num" and
    m: "map (entry_of e) (filter ?inc paths) = map Some entries"
    by blast
  from all assms(1) obtain num where num: "descriptor_nseq e p = Inr num" by auto
  with assms(2) have inr: "in_range lower upper n num" and
    bad: "isl (catalog_entry e p num)" by simp_all
  from bad num have none: "entry_of e p = None"
    by (auto simp: entry_of_def split: sum.splits)
  from num inr have "?inc p" by simp
  with assms(1) have "p \<in> set (filter ?inc paths)" by simp
  then have "entry_of e p \<in> set (map (entry_of e) (filter ?inc paths))" by simp
  with none m have "None \<in> set (map Some entries)" by simp
  then show ?thesis by auto
qed


lemma catalog_dict_lookup:
  "map_of (foldl (\<lambda>d (index, tuple, val). dict_set index val d) d entries) k =
     (case map_of (rev (map (\<lambda>(index, tuple, val). (index, val)) entries)) k of
        Some v \<Rightarrow> Some v
      | None \<Rightarrow> map_of d k)"
proof (induction entries arbitrary: d)
  case Nil
  then show ?case by simp
next
  case (Cons x entries)
  obtain index tuple val where x: "x = (index, tuple, val)" by (cases x)
  show ?case
    by (simp add: x Cons.IH map_of_dict_set map_add_def split: option.splits)
qed

lemma catalog_dict_keys:
  "fst ` set (foldl (\<lambda>d (index, tuple, val). dict_set index val d) d entries) =
     fst ` set d \<union> fst ` set entries"
proof (induction entries arbitrary: d)
  case Nil
  then show ?case by simp
next
  case (Cons x entries)
  obtain index tuple val where x: "x = (index, tuple, val)" by (cases x)
  have "fst ` set (foldl (\<lambda>d (index, tuple, val). dict_set index val d) (dict_set index val d) entries)
      = insert index (fst ` set d) \<union> fst ` set entries"
    by (simp only: Cons.IH keys_dict_set)
  with x show ?case by simp
qed

lemma catalog_dict_is_dict:
  "is_dict d \<Longrightarrow> is_dict (foldl (\<lambda>d (index, tuple, val). dict_set index val d) d entries)"
  by (induction entries arbitrary: d) (auto simp: is_dict_set)

lemma is_dict_length: "is_dict d \<Longrightarrow> length d = card (fst ` set d)"
proof -
  assume "is_dict d"
  then have "card (set (map fst d)) = length (map fst d)"
    unfolding is_dict_def by (rule distinct_card)
  then show ?thesis by simp
qed

lemma obtainHMMs_success:
  assumes "obtainHMMs e indir lower upper given = Inr (hmm_indexes, index_to_hmms)"
  shows "\<exists>entries.
     (\<forall>p \<in> set (discovered_paths e indir given). \<exists>num. descriptor_nseq e p = Inr num) \<and>
     map (entry_of e)
       (filter (passes_size_filter e lower upper (discovered_paths e indir given))
          (discovered_paths e indir given)) = map Some entries \<and>
     hmm_indexes = sorted_desc (\<lambda>x. fst (snd x)) (map (\<lambda>(index, tuple, val). tuple) entries) \<and>
     index_to_hmms = foldl (\<lambda>d (index, tuple, val). dict_set index val d) [] entries"
proof -
  let ?paths = "discovered_paths e indir given"
  from assms obtain pre where
    run: "obtain_loop e lower upper (length ?paths) ?paths ([], []) = Inr (pre, index_to_hmms)"
    and hi: "hmm_indexes = sorted_desc (\<lambda>x. fst (snd x)) pre"
    by (auto simp: obtainHMMs_def Let_def split: sum.splits)
  have f: "(\<lambda>p. case descriptor_nseq e p of Inl _ \<Rightarrow> False
                | Inr num \<Rightarrow> in_range lower upper (length ?paths) num)
         = passes_size_filter e lower upper ?paths"
    by (rule ext) (simp add: passes_size_filter_in_range)
  from obtain_loop_success [OF run] hi show ?thesis
    unfolding f by auto
qed

lemma obtainHMMs_fails:
  assumes "p \<in> set (discovered_paths e indir given)"
      and "case descriptor_nseq e p of Inl _ \<Rightarrow> True
           | Inr num \<Rightarrow> in_range lower upper (length (discovered_paths e indir given)) num \<and>
                        isl (catalog_entry e p num)"
  shows "\<exists>err. obtainHMMs e indir lower upper given = Inl err"
  using obtain_loop_fails [OF assms, of "([], [])"]
  by (auto simp: obtainHMMs_def Let_def)




lemma entries_keys:
  "map (entry_of e) ps = map Some entries \<Longrightarrow>
   map fst entries = map (\<lambda>p. index_of (dirname p)) ps"
proof (induction ps arbitrary: entries)
  case Nil
  then show ?case by simp
next
  case (Cons p ps)
  from Cons.prems obtain x xs where es: "entries = x # xs"
    and x: "entry_of e p = Some x" and xs: "map (entry_of e) ps = map Some xs"
    by (cases entries) auto
  obtain index tuple val where "x = (index, tuple, val)" by (cases x)
  with x entry_of_facts [of e p index tuple val] have "fst x = index_of (dirname p)" by simp
  with Cons.IH [OF xs] es show ?case by simp
qed


lemma length_sorted_desc: "length (sorted_desc f xs) = length xs"
  by (simp add: sorted_desc_def)


section \<open>Properties of the Model Catalog Builder\<close>

text \<open>
  Claim C2. When \<^verbatim>\<open>obtainHMMs\<close> returns, every processed descriptor has a
  training-sequence count, a descriptor passes the size filter exactly when that count
  lies in \<open>[lower, upper]\<close> or the number of processed descriptor files is one, and the
  catalog holds exactly the entries of the descriptors that pass: the tuple list is a
  rearrangement of their tuples and the keys of the mapping are their keys.
\<close>

theorem size_filter_decides_inclusion:
  assumes "obtainHMMs e indir lower upper given = Inr (hmm_indexes, index_to_hmms)"
  shows "\<exists>entries.
     map (entry_of e)
       (filter (passes_size_filter e lower upper (discovered_paths e indir given))
          (discovered_paths e indir given)) = map Some entries \<and>
     mset hmm_indexes = mset (map (\<lambda>(index, tuple, val). tuple) entries) \<and>
     fst ` set index_to_hmms = fst ` set entries \<and>
     (\<forall>p \<in> set (discovered_paths e indir given). \<exists>num.
        descriptor_nseq e p = Inr num \<and>
        (passes_size_filter e lower upper (discovered_paths e indir given) p \<longleftrightarrow>
           (lower \<le> num \<and> num \<le> upper) \<or> length (discovered_paths e indir given) = 1))"
proof -
  let ?paths = "discovered_paths e indir given"
  from obtainHMMs_success [OF assms] obtain entries where
    all: "\<forall>p \<in> set ?paths. \<exists>num. descriptor_nseq e p = Inr num" and
    m: "map (entry_of e) (filter (passes_size_filter e lower upper ?paths) ?paths) = map Some entries" and
    hi: "hmm_indexes = sorted_desc (\<lambda>x. fst (snd x)) (map (\<lambda>(index, tuple, val). tuple) entries)" and
    ih: "index_to_hmms = foldl (\<lambda>d (index, tuple, val). dict_set index val d) [] entries"
    by blast
  have a: "mset hmm_indexes = mset (map (\<lambda>(index, tuple, val). tuple) entries)"
    unfolding hi by (rule mset_sorted_desc)
  have b: "fst ` set index_to_hmms = fst ` set entries"
    unfolding ih by (simp add: catalog_dict_keys)
  have c: "\<exists>num. descriptor_nseq e p = Inr num \<and>
        (passes_size_filter e lower upper ?paths p \<longleftrightarrow>
           (lower \<le> num \<and> num \<le> upper) \<or> length ?paths = 1)" if "p \<in> set ?paths" for p
  proof -
    from all that obtain num where "descriptor_nseq e p = Inr num" by auto
    then show ?thesis by (simp add: passes_size_filter_def)
  qed
  from m a b c show ?thesis by blast
qed

theorem size_filter_decides_inclusion_witness:
  "obtainHMMs demo_env ''/r'' 20 100 [] =
     Inr ([(1, 200, 0, 50), (2, 150, 0, 80)], demo_catalog) \<and>
   map (passes_size_filter demo_env 20 100 (discovered_paths demo_env ''/r'' []))
     (discovered_paths demo_env ''/r'' []) = [True, True, False] \<and>
   obtainHMMs demo_env ''/r'' 20 100 [''/r/3/A_3_0/hmmbuild.model.1''] =
     Inr ([(3, 5, 0, 10)], [(''A_3_0'', (''/r/3/A_3_0'', 3, 0, 10))]) \<and>
   (\<exists>entries.
     map (entry_of demo_env)
       (filter (passes_size_filter demo_env 20 100 (discovered_paths demo_env ''/r'' []))
          (discovered_paths demo_env ''/r'' [])) = map Some entries \<and>
     mset [(1, 200, 0, 50), (2, 150, 0, 80)] = mset (map (\<lambda>(index, tuple, val). tuple) entries) \<and>
     fst ` set demo_catalog = fst ` set entries)"
proof -
  have run: "obtainHMMs demo_env ''/r'' 20 100 [] =
     Inr ([(1, 200, 0, 50), (2, 150, 0, 80)], demo_catalog)"
    by code_simp
  have pass: "map (passes_size_filter demo_env 20 100 (discovered_paths demo_env ''/r'' []))
     (discovered_paths demo_env ''/r'' []) = [True, True, False]"
    by code_simp
  have single: "obtainHMMs demo_env ''/r'' 20 100 [''/r/3/A_3_0/hmmbuild.model.1''] =
     Inr ([(3, 5, 0, 10)], [(''A_3_0'', (''/r/3/A_3_0'', 3, 0, 10))])"
    by code_simp
  from size_filter_decides_inclusion [OF run] run pass single show ?thesis by blast
qed




text \<open>
  Claim C7. \<^verbatim>\<open>obtainHMMs\<close> fails, returning no catalog, whenever a processed descriptor
  has no header line starting with \<^verbatim>\<open>NSEQ\<close>, or a descriptor that passes the size
  filter has no file \<^verbatim>\<open>subset.aln.fasta\<close> one directory level above its containing
  directory.
\<close>

theorem missing_field_or_sibling_aborts:
  assumes "p \<in> set (discovered_paths e indir given)"
      and "lacks_nseq e p \<or>
           (passes_size_filter e lower upper (discovered_paths e indir given) p \<and>
            \<not> path_exists e (subalignment_path_of (dirname p)))"
  shows "\<exists>err. obtainHMMs e indir lower upper given = Inl err"
proof (rule obtainHMMs_fails [OF assms(1)])
  let ?paths = "discovered_paths e indir given"
  show "case descriptor_nseq e p of Inl _ \<Rightarrow> True
        | Inr num \<Rightarrow> in_range lower upper (length ?paths) num \<and> isl (catalog_entry e p num)"
  proof (cases "descriptor_nseq e p")
    case (Inl err)
    then show ?thesis by simp
  next
    case (Inr num)
    with lacks_nseq_fails [of e p] have "\<not> lacks_nseq e p" by auto
    with assms(2) have pass: "passes_size_filter e lower upper ?paths p"
      and miss: "\<not> path_exists e (subalignment_path_of (dirname p))" by simp_all
    from pass Inr have "in_range lower upper (length ?paths) num"
      by (simp add: passes_size_filter_in_range)
    moreover from catalog_entry_fails [of e p num] miss have "isl (catalog_entry e p num)"
      by auto
    ultimately show ?thesis using Inr by simp
  qed
qed

theorem missing_field_or_sibling_aborts_witness:
  "lacks_nseq no_nseq_env ''/r/1/A_1_0/hmmbuild.model.1'' \<and>
   (\<exists>err. obtainHMMs no_nseq_env ''/r'' 20 100 [] = Inl err) \<and>
   obtainHMMs no_nseq_env ''/r'' 20 100 [] = Inl AssertionError \<and>
   passes_size_filter no_sibling_env 20 100 (discovered_paths no_sibling_env ''/r'' [])
     ''/r/1/A_1_0/hmmbuild.model.1'' \<and>
   (\<exists>err. obtainHMMs no_sibling_env ''/r'' 20 100 [] = Inl err) \<and>
   obtainHMMs no_sibling_env ''/r'' 20 100 [] = Inl AssertionError"
proof -
  have p1: "''/r/1/A_1_0/hmmbuild.model.1'' \<in> set (discovered_paths no_nseq_env ''/r'' [])"
    by code_simp
  have l: "lacks_nseq no_nseq_env ''/r/1/A_1_0/hmmbuild.model.1''"
    by code_simp
  have p2: "''/r/1/A_1_0/hmmbuild.model.1'' \<in> set (discovered_paths no_sibling_env ''/r'' [])"
    by code_simp
  have f: "passes_size_filter no_sibling_env 20 100 (discovered_paths no_sibling_env ''/r'' [])
     ''/r/1/A_1_0/hmmbuild.model.1''"
    by code_simp
  have m: "\<not> path_exists no_sibling_env (subalignment_path_of (dirname ''/r/1/A_1_0/hmmbuild.model.1''))"
    by code_simp
  have e1: "obtainHMMs no_nseq_env ''/r'' 20 100 [] = Inl AssertionError"
    by code_simp
  have e2: "obtainHMMs no_sibling_env ''/r'' 20 100 [] = Inl AssertionError"
    by code_simp
  from l have h1: "lacks_nseq no_nseq_env ''/r/1/A_1_0/hmmbuild.model.1'' \<or>
      (passes_size_filter no_nseq_env 20 100 (discovered_paths no_nseq_env ''/r'' [])
         ''/r/1/A_1_0/hmmbuild.model.1'' \<and>
       \<not> path_exists no_nseq_env (subalignment_path_of (dirname ''/r/1/A_1_0/hmmbuild.model.1'')))"
    by simp
  from f m have h2: "lacks_nseq no_sibling_env ''/r/1/A_1_0/hmmbuild.model.1'' \<or>
      (passes_size_filter no_sibling_env 20 100 (discovered_paths no_sibling_env ''/r'' [])
         ''/r/1/A_1_0/hmmbuild.model.1'' \<and>
       \<not> path_exists no_sibling_env (subalignment_path_of (dirname ''/r/1/A_1_0/hmmbuild.model.1'')))"
    by simp
  from missing_field_or_sibling_aborts [OF p1 h1] missing_field_or_sibling_aborts [OF p2 h2]
    l f e1 e2
  show ?thesis by blast
qed

text \<open>
  Claim C8. The tuple list returned by \<^verbatim>\<open>obtainHMMs\<close> is sorted by its second component
  in descending order, and for every size the tuples with that size stand in the order
  in which their descriptors were processed.
\<close>

theorem catalog_sorted_by_subset_size:
  assumes "obtainHMMs e indir lower upper given = Inr (hmm_indexes, index_to_hmms)"
  shows "sorted_wrt (\<lambda>a b. fst (snd b) \<le> fst (snd a)) hmm_indexes \<and>
     (\<exists>entries.
        map (entry_of e)
          (filter (passes_size_filter e lower upper (discovered_paths e indir given))
             (discovered_paths e indir given)) = map Some entries \<and>
        (\<forall>size. filter (\<lambda>t. fst (snd t) = size) hmm_indexes =
                filter (\<lambda>t. fst (snd t) = size) (map (\<lambda>(index, tuple, val). tuple) entries)))"
proof -
  let ?paths = "discovered_paths e indir given"
  from obtainHMMs_success [OF assms] obtain entries where
    m: "map (entry_of e) (filter (passes_size_filter e lower upper ?paths) ?paths) = map Some entries" and
    hi: "hmm_indexes = sorted_desc (\<lambda>x. fst (snd x)) (map (\<lambda>(index, tuple, val). tuple) entries)"
    by blast
  have a: "sorted_wrt (\<lambda>a b. fst (snd b) \<le> fst (snd a)) hmm_indexes"
    unfolding hi by (rule sorted_desc_sorted)
  have b: "filter (\<lambda>t. fst (snd t) = size) hmm_indexes =
           filter (\<lambda>t. fst (snd t) = size) (map (\<lambda>(index, tuple, val). tuple) entries)" for size
    unfolding hi by (rule sorted_desc_stable)
  from m a b show ?thesis by blast
qed

theorem catalog_sorted_by_subset_size_witness:
  "obtainHMMs demo_env ''/r'' 20 100
     [''/r/2/A_2_0/hmmbuild.model.1'', ''/r/1/A_1_0/hmmbuild.model.1''] =
     Inr ([(1, 200, 0, 50), (2, 150, 0, 80)],
          [(''A_2_0'', (''/r/2/A_2_0'', 2, 0, 80)), (''A_1_0'', (''/r/1/A_1_0'', 1, 0, 50))]) \<and>
   sorted_wrt (\<lambda>a b. fst (snd b) \<le> fst (snd a))
     [(1 :: int, 200 :: int, 0 :: int, 50 :: int), (2, 150, 0, 80)] \<and>
   obtainHMMs dup_env ''/r'' 20 100 [] =
     Inr ([(1, 200, 0, 50), (1, 200, 0, 60)], [(''A_1_0'', (''/r/b/A_1_0'', 1, 0, 60))]) \<and>
   sorted_wrt (\<lambda>a b. fst (snd b) \<le> fst (snd a))
     [(1 :: int, 200 :: int, 0 :: int, 50 :: int), (1, 200, 0, 60)]"
proof -
  have run: "obtainHMMs demo_env ''/r'' 20 100
     [''/r/2/A_2_0/hmmbuild.model.1'', ''/r/1/A_1_0/hmmbuild.model.1''] =
     Inr ([(1, 200, 0, 50), (2, 150, 0, 80)],
          [(''A_2_0'', (''/r/2/A_2_0'', 2, 0, 80)), (''A_1_0'', (''/r/1/A_1_0'', 1, 0, 50))])"
    by code_simp
  have tie: "obtainHMMs dup_env ''/r'' 20 100 [] =
     Inr ([(1, 200, 0, 50), (1, 200, 0, 60)], [(''A_1_0'', (''/r/b/A_1_0'', 1, 0, 60))])"
    by code_simp
  from catalog_sorted_by_subset_size [OF run] catalog_sorted_by_subset_size [OF tie] run tie
  show ?thesis by blast
qed

text \<open>
  Claim C10. The mapping returned by \<^verbatim>\<open>obtainHMMs\<close> is keyed by the basename of the
  containing directory and holds under each key the value of the last processed
  descriptor with that basename, while the tuple list has one entry for every included
  descriptor; when two included descriptors share a basename the mapping has fewer
  entries than the tuple list.
\<close>

theorem same_basename_overwrites_mapping:
  assumes "obtainHMMs e indir lower upper given = Inr (hmm_indexes, index_to_hmms)"
  shows "\<exists>entries.
     map (entry_of e)
       (filter (passes_size_filter e lower upper (discovered_paths e indir given))
          (discovered_paths e indir given)) = map Some entries \<and>
     map fst entries = map (\<lambda>p. index_of (dirname p))
       (filter (passes_size_filter e lower upper (discovered_paths e indir given))
          (discovered_paths e indir given)) \<and>
     length hmm_indexes = length entries \<and>
     is_dict index_to_hmms \<and>
     (\<forall>index. dict_get index_to_hmms index =
        map_of (rev (map (\<lambda>(index, tuple, val). (index, val)) entries)) index) \<and>
     length index_to_hmms = card (set (map fst entries)) \<and>
     (\<not> distinct (map fst entries) \<longrightarrow> length index_to_hmms < length hmm_indexes)"
proof -
  let ?paths = "discovered_paths e indir given"
  from obtainHMMs_success [OF assms] obtain entries where
    m: "map (entry_of e) (filter (passes_size_filter e lower upper ?paths) ?paths) = map Some entries" and
    hi: "hmm_indexes = sorted_desc (\<lambda>x. fst (snd x)) (map (\<lambda>(index, tuple, val). tuple) entries)" and
    ih: "index_to_hmms = foldl (\<lambda>d (index, tuple, val). dict_set index val d) [] entries"
    by blast
  have k: "map fst entries = map (\<lambda>p. index_of (dirname p))
       (filter (passes_size_filter e lower upper ?paths) ?paths)"
    by (rule entries_keys [OF m])
  have len: "length hmm_indexes = length entries"
    unfolding hi by (simp add: length_sorted_desc)
  have d: "is_dict index_to_hmms"
    unfolding ih by (rule catalog_dict_is_dict) (simp add: is_dict_def)
  have lk: "dict_get index_to_hmms index =
        map_of (rev (map (\<lambda>(index, tuple, val). (index, val)) entries)) index" for index
    unfolding ih dict_get_def
    by (simp add: catalog_dict_lookup split: option.splits)
  have "fst ` set index_to_hmms = fst ` set entries"
    unfolding ih by (simp add: catalog_dict_keys)
  with is_dict_length [OF d] have c: "length index_to_hmms = card (set (map fst entries))"
    by simp
  have lt: "length index_to_hmms < length hmm_indexes" if "\<not> distinct (map fst entries)"
  proof -
    have "card (set (map fst entries)) \<le> length (map fst entries)" by (rule card_length)
    moreover from that have "card (set (map fst entries)) \<noteq> length (map fst entries)"
      using card_distinct by blast
    ultimately show ?thesis using c len by simp
  qed
  from m k len d lk c lt show ?thesis by blast
qed

theorem same_basename_overwrites_mapping_witness:
  "obtainHMMs dup_env ''/r'' 20 100 [] =
     Inr ([(1, 200, 0, 50), (1, 200, 0, 60)], [(''A_1_0'', (''/r/b/A_1_0'', 1, 0, 60))]) \<and>
   map (\<lambda>p. index_of (dirname p))
       (filter (passes_size_filter dup_env 20 100 (discovered_paths dup_env ''/r'' []))
          (discovered_paths dup_env ''/r'' [])) = [''A_1_0'', ''A_1_0''] \<and>
   length [(''A_1_0'', (''/r/b/A_1_0'', 1 :: int, 0 :: int, 60 :: int))] <
     length [(1 :: int, 200 :: int, 0 :: int, 50 :: int), (1, 200, 0, 60)]"
proof -
  have run: "obtainHMMs dup_env ''/r'' 20 100 [] =
     Inr ([(1, 200, 0, 50), (1, 200, 0, 60)], [(''A_1_0'', (''/r/b/A_1_0'', 1, 0, 60))])"
    by code_simp
  have keys: "map (\<lambda>p. index_of (dirname p))
       (filter (passes_size_filter dup_env 20 100 (discovered_paths dup_env ''/r'' []))
          (discovered_paths dup_env ''/r'' [])) = [''A_1_0'', ''A_1_0'']"
    by code_simp
  from same_basename_overwrites_mapping [OF run]
  obtain entries :: "(string \<times> hmm_tuple \<times> hmm_value) list" where
    k: "map fst entries = map (\<lambda>p. index_of (dirname p))
       (filter (passes_size_filter dup_env 20 100 (discovered_paths dup_env ''/r'' []))
          (discovered_paths dup_env ''/r'' []))" and
    lt: "\<not> distinct (map fst entries) \<longrightarrow>
      length [(''A_1_0'', (''/r/b/A_1_0'', 1 :: int, 0 :: int, 60 :: int))] <
      length [(1 :: int, 200 :: int, 0 :: int, 50 :: int), (1, 200, 0, 60)]"
    by blast
  from k keys have "\<not> distinct (map fst entries)" by simp
  with lt run keys show ?thesis by blast
qed


section \<open>The value returned by a run\<close>





section \<open>When the stages return\<close>















section \<open>Rearranged inputs\<close>













section \<open>Re-running on the same artifacts\<close>




end
